theory Spec2Isabelle
  imports Main "HOL-Library.Word"
begin

unbundle bit_operations_syntax

section \<open>Data model of \<^verbatim>\<open>main.cpp\<close>\<close>

text \<open>
  The program is modelled for the host it was written for: an LP64 little-endian machine,
  so \<^verbatim>\<open>size_t\<close> and \<^verbatim>\<open>DocId = uint64_t\<close> are 64-bit words, \<^verbatim>\<open>std::streamsize\<close> is
  a signed 64-bit integer and \<^verbatim>\<open>sizeof(size_t) = sizeof(DocId) = 8\<close>. A \<^verbatim>\<open>std::string\<close>
  used as a blob is a list of bytes; a \<^verbatim>\<open>std::string\<close> used as a term is a \<open>string\<close>.
\<close>

type_synonym byte = "8 word"
type_synonym size_t = "64 word"
type_synonym DocId = "64 word"
type_synonym DocIdVec = "DocId list"

text \<open>
  The exceptions the program can let escape: \<^verbatim>\<open>std::length_error\<close> from a vector asked to
  grow beyond \<^verbatim>\<open>max_size()\<close>, \<^verbatim>\<open>std::bad_alloc\<close> from a vector asked for more memory
  than the host grants, and \<^verbatim>\<open>std::bad_optional_access\<close> from \<^verbatim>\<open>.value()\<close> on an empty
  optional.
\<close>

datatype error = Length_error | Bad_alloc | Bad_optional_access

text \<open>
  \<^verbatim>\<open>std::vector<DocId>::max_size()\<close>, the largest size a vector may have (the value of
  libstdc++ on LP64: \<^verbatim>\<open>PTRDIFF_MAX / sizeof(DocId)\<close>). What the host grants below that
  size is not fixed by the program: where the count comes from the input, in
  \<^verbatim>\<open>read_vector\<close>, it is a parameter \<open>mem\<close> of the model, the largest number of elements
  the allocator grants the vector at that call. The index is studied with a host that
  grants every size up to \<open>max_size\<close>: it builds its vectors one element at a time.
\<close>

definition max_size :: int where
  "max_size = 2 ^ 60 - 1"

subsection \<open>Object representations\<close>

text \<open>
  \<^verbatim>\<open>reinterpret_cast<const char *>(&x)\<close> exposes the bytes of a 64-bit object, least
  significant byte first. \<open>word_bytes n w\<close> are the first \<open>n\<close> of them.
\<close>

fun word_bytes :: "nat \<Rightarrow> 64 word \<Rightarrow> byte list" where
  "word_bytes 0 w = []"
| "word_bytes (Suc n) w = ucast w # word_bytes n (drop_bit 8 w)"

definition object_bytes :: "64 word \<Rightarrow> byte list" where
  "object_bytes w = word_bytes 8 w"

text \<open>The 64-bit value whose representation starts with the given bytes.\<close>

fun from_le :: "byte list \<Rightarrow> 64 word" where
  "from_le [] = 0"
| "from_le (b # bs) = ucast b OR push_bit 8 (from_le bs)"

text \<open>The contiguous storage of a vector, \<^verbatim>\<open>&data[0]\<close> viewed as bytes, and back.\<close>

definition vec_image :: "DocIdVec \<Rightarrow> byte list" where
  "vec_image v = concat (map object_bytes v)"

fun from_image :: "byte list \<Rightarrow> DocIdVec" where
  "from_image (b0 # b1 # b2 # b3 # b4 # b5 # b6 # b7 # rest) =
     from_le [b0, b1, b2, b3, b4, b5, b6, b7] # from_image rest"
| "from_image _ = []"

text \<open>
  Storing the bytes a read extracted at the start of an object: the bytes beyond the
  extracted ones keep their value.
\<close>

definition overwrite :: "byte list \<Rightarrow> byte list \<Rightarrow> byte list" where
  "overwrite got img = got @ drop (length got) img"

text \<open>
  \<^verbatim>\<open>data.resize(n)\<close>: new elements are value-initialised. Growing beyond \<open>max_size\<close> throws
  \<^verbatim>\<open>std::length_error\<close> before any allocation; growing to a size the host does not grant
  throws \<^verbatim>\<open>std::bad_alloc\<close>; shrinking allocates nothing.
\<close>

definition resize_mem :: "int \<Rightarrow> size_t \<Rightarrow> DocIdVec \<Rightarrow> error + DocIdVec" where
  "resize_mem mem n data =
     (if max_size < uint n then Inl Length_error
      else if int (length data) < uint n \<and> mem < uint n then Inl Bad_alloc
      else Inr (take (unat n) data @ replicate (unat n - length data) 0))"

text \<open>\<^verbatim>\<open>data.resize(n)\<close> on a host that grants every size up to \<open>max_size\<close>.\<close>

definition resize :: "size_t \<Rightarrow> DocIdVec \<Rightarrow> error + DocIdVec" where
  "resize n data = resize_mem max_size n data"

text \<open>\<^verbatim>\<open>v.insert(v.begin() + p, x)\<close>.\<close>

definition vec_insert :: "DocIdVec \<Rightarrow> nat \<Rightarrow> DocId \<Rightarrow> error + DocIdVec" where
  "vec_insert v p x =
     (if max_size \<le> int (length v) then Inl Length_error
      else Inr (take p v @ x # drop p v))"

subsection \<open>String streams\<close>

text \<open>
  A \<^verbatim>\<open>std::stringstream\<close>: its buffer, the get and put positions and whether the stream
  is still \<^verbatim>\<open>good()\<close>. Unformatted \<^verbatim>\<open>read\<close> and \<^verbatim>\<open>write\<close> do nothing on a stream that is
  not good, and a transfer of fewer characters than asked for sets an error bit.
\<close>

record stringstream =
  content :: "byte list"
  gpos :: nat
  ppos :: nat
  good :: bool

text \<open>\<^verbatim>\<open>std::stringstream ss(s)\<close>; \<^verbatim>\<open>std::stringstream ss{}\<close> is the case of the empty string.\<close>

definition sstream_of :: "byte list \<Rightarrow> stringstream" where
  "sstream_of s = \<lparr>content = s, gpos = 0, ppos = 0, good = True\<rparr>"

definition str :: "stringstream \<Rightarrow> byte list" where
  "str ss = content ss"

text \<open>
  \<^verbatim>\<open>os.write(p, n)\<close>, where \<open>mem\<close> are the bytes of the object \<open>p\<close> points into and \<open>n\<close> is
  a \<^verbatim>\<open>streamsize\<close>: a count that is not positive writes nothing.
\<close>

definition os_write :: "stringstream \<Rightarrow> byte list \<Rightarrow> int \<Rightarrow> stringstream" where
  "os_write os mem n =
     (if \<not> good os then os
      else let put = take (nat n) mem
           in os\<lparr>content := take (ppos os) (content os) @ put
                              @ drop (ppos os + length put) (content os),
                  ppos := ppos os + length put,
                  good := (int (length put) = n)\<rparr>)"

text \<open>
  \<^verbatim>\<open>is.read(p, n)\<close>: the characters extracted (at most \<open>n\<close>, fewer at the end of the
  buffer) and the stream afterwards.
\<close>

definition is_read :: "stringstream \<Rightarrow> int \<Rightarrow> byte list \<times> stringstream" where
  "is_read is n =
     (if \<not> good is then ([], is)
      else let got = take (nat n) (drop (gpos is) (content is))
           in (got, is\<lparr>gpos := gpos is + length got,
                       good := (int (length got) = n)\<rparr>))"

section \<open>Namespace \<^verbatim>\<open>serialize\<close>\<close>

text \<open>
  Both functions are instantiated at \<^verbatim>\<open>T = DocId\<close> only. The byte counts are computed as
  the source computes them, in \<^verbatim>\<open>size_t\<close> (the product wraps) and then read as a
  \<^verbatim>\<open>streamsize\<close>. Neither function looks at the state of the stream, and
  \<^verbatim>\<open>read_vector\<close> does not compare the count it read with the bytes that are left. On an
  empty vector \<^verbatim>\<open>&data[0]\<close> is formed and passed with a count of 0, so that no byte behind
  it is transferred: the model transfers none.
\<close>

definition write_vector :: "stringstream \<Rightarrow> DocIdVec \<Rightarrow> stringstream" where
  "write_vector os data =
     (let len = (word_of_nat (length data) :: size_t);
          os1 = os_write os (object_bytes len) 8;
          os2 = os_write os1 (vec_image data) (sint (len * 8))
      in os2)"

definition read_vector_mem ::
    "int \<Rightarrow> stringstream \<Rightarrow> DocIdVec \<Rightarrow> error + stringstream \<times> DocIdVec" where
  "read_vector_mem mem is data =
     (let len0 = (0 :: size_t);
          (got, is1) = is_read is 8;
          len = from_le (overwrite got (object_bytes len0))
      in case resize_mem mem len data of
           Inl e \<Rightarrow> Inl e
         | Inr data1 \<Rightarrow>
             let (got', is2) = is_read is1 (sint (8 * len))
             in Inr (is2, from_image (overwrite got' (vec_image data1))))"

text \<open>
  \<^verbatim>\<open>read_vector\<close> on a host that grants every size up to \<open>max_size\<close>, as the index is
  studied: there the counts are those \<^verbatim>\<open>write_vector\<close> wrote.
\<close>

definition read_vector :: "stringstream \<Rightarrow> DocIdVec \<Rightarrow> error + stringstream \<times> DocIdVec" where
  "read_vector is data = read_vector_mem max_size is data"

section \<open>Class \<^verbatim>\<open>KVStore\<close>\<close>

record KVStore =
  store :: "string \<rightharpoonup> byte list"

definition KVStore_insert :: "KVStore \<Rightarrow> string \<Rightarrow> byte list \<Rightarrow> KVStore" where
  "KVStore_insert kv k v = kv\<lparr>store := (store kv)(k \<mapsto> v)\<rparr>"

text \<open>\<^verbatim>\<open>_store[k]\<close> default-constructs the value of a key that is not there.\<close>

definition KVStore_get :: "KVStore \<Rightarrow> string \<Rightarrow> byte list \<times> KVStore" where
  "KVStore_get kv k =
     (case store kv k of
        Some v \<Rightarrow> (v, kv)
      | None \<Rightarrow> ([], kv\<lparr>store := (store kv)(k \<mapsto> [])\<rparr>))"

definition KVStore_exists :: "KVStore \<Rightarrow> string \<Rightarrow> bool" where
  "KVStore_exists kv k = (store kv k \<noteq> None)"

section \<open>Class \<^verbatim>\<open>IIndex\<close>\<close>

record IIndex =
  kvstore :: KVStore

definition IIndex_init :: IIndex where
  "IIndex_init = \<lparr>kvstore = \<lparr>store = Map.empty\<rparr>\<rparr>"

text \<open>
  \<^verbatim>\<open>std::lower_bound\<close> on the range of \<open>len\<close> elements starting at index \<open>first\<close>, by
  bisection as the standard library does it. Called on a whole vector (\<open>first = 0\<close>,
  \<open>len = length v\<close>) it keeps \<open>first + len \<le> length v\<close>, so that \<open>middle\<close> is an index of
  \<open>v\<close> whenever it is read.
\<close>

function lower_bound :: "DocIdVec \<Rightarrow> nat \<Rightarrow> nat \<Rightarrow> DocId \<Rightarrow> nat" where
  "lower_bound v first len val =
     (if len = 0 then first
      else let half = len div 2; middle = first + half
           in if v ! middle < val
              then lower_bound v (middle + 1) (len - half - 1) val
              else lower_bound v first half val)"
  by pat_completeness auto
termination
  by (relation "measure (\<lambda>(v, first, len, val). len)") auto

declare lower_bound.simps [simp del]

text \<open>\<^verbatim>\<open>std::binary_search\<close>: the lower bound is in the range and not greater than the value.\<close>

definition binary_search :: "DocIdVec \<Rightarrow> DocId \<Rightarrow> bool" where
  "binary_search v val =
     (let i = lower_bound v 0 (length v) val
      in i \<noteq> length v \<and> \<not> val < v ! i)"

definition get_doc_vector :: "IIndex \<Rightarrow> string \<Rightarrow> error + DocIdVec option \<times> IIndex" where
  "get_doc_vector idx term =
     (if KVStore_exists (kvstore idx) term then
        let (vecstr, kv) = KVStore_get (kvstore idx) term;
            ss = sstream_of vecstr;
            doc_vec = []
        in case read_vector ss doc_vec of
             Inl e \<Rightarrow> Inl e
           | Inr (ss', doc_vec') \<Rightarrow> Inr (Some doc_vec', idx\<lparr>kvstore := kv\<rparr>)
      else Inr (None, idx))"

definition add_new_term :: "IIndex \<Rightarrow> DocId \<Rightarrow> string \<Rightarrow> IIndex" where
  "add_new_term idx did term =
     (let doc_vec = [did];
          ss = sstream_of [];
          ss = write_vector ss doc_vec
      in idx\<lparr>kvstore := KVStore_insert (kvstore idx) term (str ss)\<rparr>)"

definition add_existing_term :: "IIndex \<Rightarrow> DocId \<Rightarrow> string \<Rightarrow> error + IIndex" where
  "add_existing_term idx did term =
     (let (vecstr, kv) = KVStore_get (kvstore idx) term;
          ss = sstream_of vecstr
      in case get_doc_vector (idx\<lparr>kvstore := kv\<rparr>) term of
           Inl e \<Rightarrow> Inl e
         | Inr (None, idx') \<Rightarrow> Inl Bad_optional_access
         | Inr (Some doc_vec, idx') \<Rightarrow>
             if \<not> binary_search doc_vec did then
               let it = lower_bound doc_vec 0 (length doc_vec) did
               in case vec_insert doc_vec it did of
                    Inl e \<Rightarrow> Inl e
                  | Inr doc_vec' \<Rightarrow>
                      let ss = sstream_of [];
                          ss = write_vector ss doc_vec'
                      in Inr (idx'\<lparr>kvstore := KVStore_insert (kvstore idx') term (str ss)\<rparr>)
             else Inr idx')"

definition add_term :: "IIndex \<Rightarrow> DocId \<Rightarrow> string \<Rightarrow> error + IIndex" where
  "add_term idx did term =
     (if \<not> KVStore_exists (kvstore idx) term then Inr (add_new_term idx did term)
      else add_existing_term idx did term)"

text \<open>
  A finite sequence of \<^verbatim>\<open>add_term\<close> calls, as \<^verbatim>\<open>main\<close> makes them one after the other; an
  exception ends the run.
\<close>

fun add_terms :: "IIndex \<Rightarrow> (DocId \<times> string) list \<Rightarrow> error + IIndex" where
  "add_terms idx [] = Inr idx"
| "add_terms idx ((did, term) # rest) =
     (case add_term idx did term of
        Inl e \<Rightarrow> Inl e
      | Inr idx' \<Rightarrow> add_terms idx' rest)"

text \<open>The calls of \<^verbatim>\<open>main\<close>, in order.\<close>

definition main_adds :: "(DocId \<times> string) list" where
  "main_adds =
     [(0, ''dog''), (0, ''cat''), (1, ''cat''), (1, ''mouse''), (1, ''house''),
      (2, ''cat''), (2, ''dog''), (2, ''tree''), (1, ''tree'')]"

text \<open>What a caller of \<^verbatim>\<open>get_doc_vector\<close> is handed back.\<close>

definition lookup :: "IIndex \<Rightarrow> string \<Rightarrow> error + DocIdVec option" where
  "lookup idx term = map_sum id fst (get_doc_vector idx term)"

section \<open>Notions used to state the properties\<close>

text \<open>
  The wire format of a posting list: the element count as a \<^verbatim>\<open>size_t\<close>, then the elements.
\<close>

definition blob_of :: "DocIdVec \<Rightarrow> byte list" where
  "blob_of v = object_bytes (word_of_nat (length v)) @ vec_image v"

text \<open>The index whose store holds, for each term, the wire format of its posting list.\<close>

definition index_of :: "(string \<rightharpoonup> DocIdVec) \<Rightarrow> IIndex" where
  "index_of m = \<lparr>kvstore = \<lparr>store = (\<lambda>t. map_option blob_of (m t))\<rparr>\<rparr>"

text \<open>Posting lists as the index keeps them: strictly ascending, not empty, within \<open>max_size\<close>.\<close>

definition good_postings :: "(string \<rightharpoonup> DocIdVec) \<Rightarrow> bool" where
  "good_postings m \<longleftrightarrow>
     (\<forall>t v. m t = Some v \<longrightarrow> sorted_wrt (<) v \<and> v \<noteq> [] \<and> int (length v) \<le> max_size)"

text \<open>The doc-ids of a term in a map of posting lists.\<close>

definition docs :: "(string \<rightharpoonup> DocIdVec) \<Rightarrow> string \<Rightarrow> DocId set" where
  "docs m t = (case m t of None \<Rightarrow> {} | Some v \<Rightarrow> set v)"

text \<open>The vector after \<^verbatim>\<open>doc_vec.insert(it, did)\<close> at the lower bound of \<open>did\<close>.\<close>

definition sorted_insert :: "DocIdVec \<Rightarrow> DocId \<Rightarrow> DocIdVec" where
  "sorted_insert v d =
     (let it = lower_bound v 0 (length v) d in take it v @ d # drop it v)"

text \<open>What \<^verbatim>\<open>add_term\<close> does, told on the posting lists instead of the blobs.\<close>

definition post_add :: "(string \<rightharpoonup> DocIdVec) \<Rightarrow> DocId \<Rightarrow> string \<Rightarrow> error + (string \<rightharpoonup> DocIdVec)" where
  "post_add m d t =
     (case m t of
        None \<Rightarrow> Inr (m(t \<mapsto> [d]))
      | Some v \<Rightarrow>
          if d \<in> set v then Inr m
          else if max_size \<le> int (length v) then Inl Length_error
          else Inr (m(t \<mapsto> sorted_insert v d)))"

text \<open>No posting list is longer than \<open>n\<close>.\<close>

definition bounded_postings :: "nat \<Rightarrow> (string \<rightharpoonup> DocIdVec) \<Rightarrow> bool" where
  "bounded_postings n m \<longleftrightarrow> (\<forall>t v. m t = Some v \<longrightarrow> length v \<le> n)"

text \<open>The doc-ids of a term as \<^verbatim>\<open>get_doc_vector\<close> reports them; none when it reports absence.\<close>

definition posting_set :: "IIndex \<Rightarrow> string \<Rightarrow> DocId set" where
  "posting_set idx term = (case lookup idx term of Inr (Some v) \<Rightarrow> set v | _ \<Rightarrow> {})"

section \<open>Object representations and the codec\<close>

lemma ucast_ucast_byte: "(ucast (ucast (w::64 word) :: byte) :: 64 word) = take_bit 8 w"
  by (rule bit_word_eqI) (simp add: bit_simps)

lemma take_bit_split8:
  "take_bit (8 + m) (w::64 word) = take_bit 8 w OR push_bit 8 (take_bit m (drop_bit 8 w))"
proof (rule bit_word_eqI)
  fix n assume n: "n < LENGTH(64)"
  show "bit (take_bit (8 + m) w) n
      = bit (take_bit 8 w OR push_bit 8 (take_bit m (drop_bit 8 w))) n"
  proof (cases "n < 8")
    case True
    then show ?thesis by (simp add: bit_simps)
  next
    case False
    then have "8 + (n - 8) = n" by simp
    with False n show ?thesis by (simp add: bit_simps) linarith
  qed
qed

lemma from_le_word_bytes: "from_le (word_bytes n w) = take_bit (8 * n) w"
proof (induction n arbitrary: w)
  case 0
  show ?case by simp
next
  case (Suc n)
  have "8 * Suc n = 8 + 8 * n" by simp
  with Suc show ?case
    by (simp only: word_bytes.simps from_le.simps ucast_ucast_byte take_bit_split8)
qed

lemma length_word_bytes [simp]: "length (word_bytes n w) = n"
  by (induction n arbitrary: w) auto

lemma length_object_bytes [simp]: "length (object_bytes w) = 8"
  by (simp add: object_bytes_def)

lemma from_le_object_bytes [simp]: "from_le (object_bytes w) = w"
proof -
  have "take_bit (8 * 8) w = w"
    by (rule take_bit_word_eq_self) simp
  then show ?thesis by (simp add: object_bytes_def from_le_word_bytes)
qed

lemma from_image_chunk:
  assumes "length bs = 8"
  shows "from_image (bs @ rest) = from_le bs # from_image rest"
proof -
  from assms obtain b0 b1 b2 b3 b4 b5 b6 b7 where "bs = [b0, b1, b2, b3, b4, b5, b6, b7]"
    by (auto simp add: length_Suc_conv eval_nat_numeral)
  then show ?thesis by simp
qed

lemma length_vec_image [simp]: "length (vec_image v) = 8 * length v"
  by (induction v) (auto simp add: vec_image_def)

lemma vec_image_Cons: "vec_image (x # v) = object_bytes x @ vec_image v"
  by (simp add: vec_image_def)

lemma from_image_vec_image_append: "from_image (vec_image v @ rest) = v @ from_image rest"
  by (induction v) (simp_all add: vec_image_def from_image_chunk)

lemma from_image_vec_image [simp]: "from_image (vec_image v) = v"
  using from_image_vec_image_append [of v "[]"] by simp

lemma overwrite_full: "length img \<le> length got \<Longrightarrow> overwrite got img = got"
  by (simp add: overwrite_def)

lemma overwrite_Nil [simp]: "overwrite [] img = img"
  by (simp add: overwrite_def)

lemma max_size_bounds:
  assumes "int l \<le> max_size"
  shows "unat (word_of_nat l :: size_t) = l"
    and "uint (word_of_nat l :: size_t) = int l"
    and "sint (word_of_nat l * 8 :: size_t) = 8 * int l"
    and "sint (8 * word_of_nat l :: size_t) = 8 * int l"
proof -
  from assms have l: "l < 2 ^ 60" by (simp add: max_size_def)
  then have l64: "l < 2 ^ 64" by simp
  show u: "unat (word_of_nat l :: size_t) = l"
    using l64 by (simp add: unat_of_nat)
  then show "uint (word_of_nat l :: size_t) = int l"
    by (metis uint_nat)
  have b: "- (2 ^ 63) \<le> int (8 * l)" "int (8 * l) < 2 ^ 63" using l by simp_all
  have e: "(word_of_nat l * 8 :: size_t) = word_of_nat (8 * l)" by simp
  have "sint (word_of_nat (8 * l) :: size_t) = signed_take_bit 63 (int (8 * l))"
    by (simp only: signed_of_nat) simp
  also have "\<dots> = int (8 * l)"
    using b by (intro signed_take_bit_int_eq_self) simp_all
  finally have "sint (word_of_nat (8 * l) :: size_t) = 8 * int l"
    by simp
  then show "sint (word_of_nat l * 8 :: size_t) = 8 * int l"
    by (simp only: e)
  then show "sint (8 * word_of_nat l :: size_t) = 8 * int l"
    by (simp only: mult.commute [of 8])
qed

lemma write_vector_fresh:
  assumes "int (length v) \<le> max_size"
  shows "write_vector (sstream_of []) v =
           \<lparr>content = blob_of v, gpos = 0, ppos = 8 + 8 * length v, good = True\<rparr>"
  using max_size_bounds(3) [OF assms]
  by (simp add: write_vector_def os_write_def sstream_of_def blob_of_def Let_def)

lemma read_vector_mem_blob:
  assumes "int (length v) \<le> max_size" and "int (length v) \<le> mem"
  shows "read_vector_mem mem (sstream_of (blob_of v @ rest)) data =
           Inr (\<lparr>content = blob_of v @ rest, gpos = 8 + 8 * length v, ppos = 0, good = True\<rparr>, v)"
  using max_size_bounds [OF assms(1)] assms
  by (simp add: read_vector_mem_def is_read_def sstream_of_def blob_of_def Let_def
      resize_mem_def overwrite_full)

lemma read_vector_blob:
  assumes "int (length v) \<le> max_size"
  shows "read_vector (sstream_of (blob_of v @ rest)) data =
           Inr (\<lparr>content = blob_of v @ rest, gpos = 8 + 8 * length v, ppos = 0, good = True\<rparr>, v)"
  unfolding read_vector_def using assms assms by (rule read_vector_mem_blob)

text \<open>
  C3 (codec round trip). For every posting list \<open>L\<close> that a \<^verbatim>\<open>std::vector<DocId>\<close> can
  hold (at most \<open>max_size\<close> elements), \<^verbatim>\<open>read_vector\<close> applied to a stream over the bytes
  that \<^verbatim>\<open>write_vector\<close> produced on a fresh stream returns normally, leaves the stream
  good and reconstructs exactly \<open>L\<close>, whatever the vector passed in held before. For the
  empty list \<^verbatim>\<open>&data[0]\<close> is formed but no byte behind it is transferred.
\<close>

theorem codec_round_trip:
  assumes "int (length L) \<le> max_size"
  shows "\<exists>is'. read_vector (sstream_of (str (write_vector (sstream_of []) L))) data
                 = Inr (is', L) \<and> good is'"
  using read_vector_blob [OF assms, of "[]" data]
  by (simp add: write_vector_fresh [OF assms] str_def)

theorem codec_round_trip_witness:
  "int (length [1, 42, 1099511627776 :: DocId]) \<le> max_size \<and>
   (\<exists>is'. read_vector (sstream_of (str (write_vector (sstream_of [])
                                        [1, 42, 1099511627776]))) []
            = Inr (is', [1, 42, 1099511627776]) \<and> good is')"
proof -
  have h: "int (length [1, 42, 1099511627776 :: DocId]) \<le> max_size"
    by (simp add: max_size_def)
  from h codec_round_trip [OF h, of "[]"] show ?thesis
    by (rule conjI)
qed

section \<open>Searching and inserting in a sorted vector\<close>

lemma lower_bound_spec:
  assumes "sorted v" and "first + len \<le> length v"
  shows "first \<le> lower_bound v first len val \<and> lower_bound v first len val \<le> first + len \<and>
         (\<forall>i. first \<le> i \<and> i < lower_bound v first len val \<longrightarrow> v ! i < val) \<and>
         (\<forall>i. lower_bound v first len val \<le> i \<and> i < first + len \<longrightarrow> \<not> v ! i < val)"
  using assms
proof (induction v first len val rule: lower_bound.induct)
  case (1 v first len val)
  show ?case
  proof (cases "len = 0")
    case True
    then have "lower_bound v first len val = first"
      by (subst lower_bound.simps) simp
    moreover have "\<not> (first \<le> i \<and> i < first)" for i :: nat
      by linarith
    ultimately show ?thesis unfolding True by (simp only: add_0_right le_refl) blast
  next
    case False
    define half where "half = len div 2"
    define middle where "middle = first + half"
    have half: "half < len" using False by (simp add: half_def)
    have mid: "middle < length v" using half "1.prems"(2) by (simp add: middle_def)
    show ?thesis
    proof (cases "v ! middle < val")
      case True
      define r where "r = lower_bound v (middle + 1) (len - half - 1) val"
      have eq: "lower_bound v first len val = r"
        unfolding r_def using False True
        by (subst lower_bound.simps) (simp add: half_def middle_def Let_def)
      have range: "middle + 1 + (len - half - 1) = first + len"
        using half by (simp add: middle_def)
      have "middle + 1 + (len - half - 1) \<le> length v"
        using range "1.prems"(2) by simp
      from "1.IH"(1) [OF False half_def middle_def True "1.prems"(1) this]
      have IH: "middle + 1 \<le> r" "r \<le> first + len"
        "\<And>i. middle + 1 \<le> i \<Longrightarrow> i < r \<Longrightarrow> v ! i < val"
        "\<And>i. r \<le> i \<Longrightarrow> i < first + len \<Longrightarrow> \<not> v ! i < val"
        unfolding r_def [symmetric] range by blast+
      have low: "v ! i < val" if "i \<le> middle" for i
      proof -
        have "v ! i \<le> v ! middle"
          using "1.prems"(1) that mid by (simp add: sorted_nth_mono)
        with True show ?thesis by simp
      qed
      have a: "first \<le> r" using IH(1) by (simp add: middle_def)
      have c: "v ! i < val" if "i < r" for i
      proof (cases "i \<le> middle")
        case True then show ?thesis by (rule low)
      next
        case False
        then have "middle + 1 \<le> i" by simp
        then show ?thesis using that by (rule IH(3))
      qed
      show ?thesis unfolding eq using a IH(2) c IH(4) by blast
    next
      case nlt: False
      define r where "r = lower_bound v first half val"
      have eq: "lower_bound v first len val = r"
        unfolding r_def using False nlt
        by (subst lower_bound.simps) (simp add: half_def middle_def Let_def)
      have "first + half \<le> length v" using half "1.prems"(2) by simp
      from "1.IH"(2) [OF False half_def middle_def nlt "1.prems"(1) this]
      have IH: "first \<le> r" "r \<le> first + half"
        "\<And>i. first \<le> i \<Longrightarrow> i < r \<Longrightarrow> v ! i < val"
        "\<And>i. r \<le> i \<Longrightarrow> i < first + half \<Longrightarrow> \<not> v ! i < val"
        unfolding r_def [symmetric] by blast+
      have high: "\<not> v ! i < val" if "middle \<le> i" "i < first + len" for i
      proof -
        have "v ! middle \<le> v ! i"
          using "1.prems"(1,2) that by (simp add: sorted_nth_mono)
        with nlt show ?thesis by simp
      qed
      have b: "r \<le> first + len" using IH(2) half by simp
      have d: "\<not> v ! i < val" if "r \<le> i" "i < first + len" for i
      proof (cases "i < first + half")
        case True with that(1) show ?thesis by (rule IH(4))
      next
        case False
        then have "middle \<le> i" by (simp add: middle_def)
        then show ?thesis using that(2) by (rule high)
      qed
      show ?thesis unfolding eq using IH(1) b IH(3) d by blast
    qed
  qed
qed


lemma lower_bound_whole:
  assumes "sorted v"
  shows "lower_bound v 0 (length v) val \<le> length v"
    and "\<And>i. i < lower_bound v 0 (length v) val \<Longrightarrow> v ! i < val"
    and "\<And>i. lower_bound v 0 (length v) val \<le> i \<Longrightarrow> i < length v \<Longrightarrow> \<not> v ! i < val"
  using lower_bound_spec [OF assms, of 0 "length v" val] by simp_all

lemma binary_search_iff:
  assumes "sorted v"
  shows "binary_search v val \<longleftrightarrow> val \<in> set v"
proof -
  define r where "r = lower_bound v 0 (length v) val"
  note lb = lower_bound_whole [OF assms, where val = val, folded r_def]
  have bs: "binary_search v val \<longleftrightarrow> r \<noteq> length v \<and> \<not> val < v ! r"
    by (simp add: binary_search_def r_def Let_def)
  show ?thesis
  proof
    assume "binary_search v val"
    with bs have r: "r \<noteq> length v" and nl: "\<not> val < v ! r" by simp_all
    from r lb(1) have rl: "r < length v" by simp
    with lb(3) [of r] have "\<not> v ! r < val" by simp
    with nl have "v ! r = val" by simp
    with rl show "val \<in> set v" by (metis nth_mem)
  next
    assume "val \<in> set v"
    then obtain j where j: "j < length v" "v ! j = val"
      by (auto simp add: in_set_conv_nth)
    have "\<not> j < r"
    proof
      assume "j < r"
      then have "v ! j < val" by (rule lb(2))
      with j(2) show False by simp
    qed
    then have rj: "r \<le> j" by simp
    with j(1) have rl: "r < length v" by simp
    have "v ! r \<le> v ! j" using assms rj j(1) by (simp add: sorted_nth_mono)
    with j(2) have "\<not> val < v ! r" by simp
    with rl bs show "binary_search v val" by simp
  qed
qed

lemma lower_bound_insert:
  fixes val :: DocId
  assumes "sorted_wrt (<) v" and "val \<notin> set v"
  defines "r \<equiv> lower_bound v 0 (length v) val"
  shows "sorted_wrt (<) (take r v @ val # drop r v)"
    and "set (take r v @ val # drop r v) = insert val (set v)"
    and "length (take r v @ val # drop r v) = Suc (length v)"
proof -
  have sv: "sorted v" using assms(1) by (simp add: strict_sorted_iff)
  note lb = lower_bound_whole [OF sv, where val = val, folded r_def]
  have lo: "x < val" if "x \<in> set (take r v)" for x
  proof -
    from that obtain i where "i < length (take r v)" "take r v ! i = x"
      by (auto simp add: in_set_conv_nth)
    then have "i < r" "v ! i = x" by simp_all
    with lb(2) [of i] show ?thesis by simp
  qed
  have hi: "val < y" if "y \<in> set (drop r v)" for y
  proof -
    from that obtain i where i: "i < length (drop r v)" "drop r v ! i = y"
      by (auto simp add: in_set_conv_nth)
    then have "r + i < length v" "v ! (r + i) = y" using lb(1) by simp_all
    with lb(3) [of "r + i"] have "\<not> y < val" by simp
    moreover have "y \<in> set v" using that by (rule in_set_dropD)
    with assms(2) have "y \<noteq> val" by blast
    ultimately show ?thesis by simp
  qed
  have "sorted_wrt (<) (take r v)" "sorted_wrt (<) (drop r v)"
    using assms(1) by (simp_all add: sorted_wrt_take sorted_wrt_drop)
  moreover have "x < y" if "x \<in> set (take r v)" "y \<in> set (drop r v)" for x y
    using lo [OF that(1)] hi [OF that(2)] by simp
  ultimately show "sorted_wrt (<) (take r v @ val # drop r v)"
    using lo hi by (simp add: sorted_wrt_append)
  have "set (take r v) \<union> set (drop r v) = set v"
    by (metis append_take_drop_id set_append)
  then show "set (take r v @ val # drop r v) = insert val (set v)"
    by auto
  show "length (take r v @ val # drop r v) = Suc (length v)"
    using lb(1) by simp
qed

section \<open>The index as a map of posting lists\<close>

lemma index_of_empty: "IIndex_init = index_of Map.empty"
  by (simp add: IIndex_init_def index_of_def)

lemma index_of_update:
  "index_of m\<lparr>kvstore := KVStore_insert (kvstore (index_of m)) t (blob_of v)\<rparr>
     = index_of (m(t \<mapsto> v))"
  by (auto simp add: index_of_def KVStore_insert_def fun_eq_iff)

lemma exists_index_of: "KVStore_exists (kvstore (index_of m)) t \<longleftrightarrow> m t \<noteq> None"
  by (simp add: KVStore_exists_def index_of_def)

lemma get_index_of:
  "m t = Some v \<Longrightarrow> KVStore_get (kvstore (index_of m)) t = (blob_of v, kvstore (index_of m))"
  by (simp add: KVStore_get_def index_of_def)

lemma get_doc_vector_index_of:
  assumes "good_postings m"
  shows "get_doc_vector (index_of m) t = Inr (m t, index_of m)"
proof (cases "m t")
  case None
  then show ?thesis by (simp add: get_doc_vector_def exists_index_of)
next
  case (Some v)
  with assms have "int (length v) \<le> max_size" by (simp add: good_postings_def)
  from read_vector_blob [OF this, of "[]" "[]"] Some show ?thesis
    by (simp add: get_doc_vector_def exists_index_of get_index_of)
qed

lemma max_size_pos: "int (length [d]) \<le> max_size"
  by (simp add: max_size_def)

lemma add_new_term_index_of: "add_new_term (index_of m) d t = index_of (m(t \<mapsto> [d]))"
  using index_of_update [of m t "[d]"]
  by (simp add: add_new_term_def write_vector_fresh [OF max_size_pos] str_def)

lemma add_existing_term_index_of:
  assumes "good_postings m" and "m t = Some v"
  shows "add_existing_term (index_of m) d t =
           (if d \<in> set v then Inr (index_of m)
            else if max_size \<le> int (length v) then Inl Length_error
            else Inr (index_of (m(t \<mapsto> sorted_insert v d))))"
proof -
  from assms have sv: "sorted_wrt (<) v" by (simp add: good_postings_def)
  then have "sorted v" by (simp add: strict_sorted_iff)
  then have bs: "binary_search v d \<longleftrightarrow> d \<in> set v" by (rule binary_search_iff)
  have same: "index_of m\<lparr>kvstore := kvstore (index_of m)\<rparr> = index_of m" by simp
  have step: "add_existing_term (index_of m) d t =
          (if \<not> binary_search v d then
             case vec_insert v (lower_bound v 0 (length v) d) d of
               Inl e \<Rightarrow> Inl e
             | Inr v' \<Rightarrow> Inr (index_of m\<lparr>kvstore := KVStore_insert (kvstore (index_of m)) t
                                        (str (write_vector (sstream_of []) v'))\<rparr>)
           else Inr (index_of m))"
    by (simp add: add_existing_term_def get_index_of [of m t v] same
        get_doc_vector_index_of [OF assms(1)] assms(2) Let_def split: sum.splits)
  show ?thesis
  proof (cases "d \<in> set v")
    case True
    with step bs show ?thesis by simp
  next
    case False
    show ?thesis
    proof (cases "max_size \<le> int (length v)")
      case True
      with step bs False show ?thesis by (simp add: vec_insert_def)
    next
      case nfull: False
      have "length (sorted_insert v d) = Suc (length v)"
        using lower_bound_insert(3) [OF sv False] by (simp add: sorted_insert_def Let_def)
      with nfull have "int (length (sorted_insert v d)) \<le> max_size" by simp
      then have "str (write_vector (sstream_of []) (sorted_insert v d)) = blob_of (sorted_insert v d)"
        by (simp add: write_vector_fresh str_def)
      moreover have "vec_insert v (lower_bound v 0 (length v) d) d = Inr (sorted_insert v d)"
        using nfull by (simp add: vec_insert_def sorted_insert_def Let_def)
      ultimately show ?thesis
        using bs False nfull by (simp add: step index_of_update)
    qed
  qed
qed

lemma add_term_index_of:
  assumes "good_postings m"
  shows "add_term (index_of m) d t = map_sum id index_of (post_add m d t)"
proof (cases "m t")
  case None
  then show ?thesis
    by (simp add: add_term_def exists_index_of add_new_term_index_of post_add_def)
next
  case (Some v)
  then show ?thesis
    by (simp add: add_term_def exists_index_of post_add_def
        add_existing_term_index_of [OF assms Some])
qed

lemma sorted_insert_props:
  assumes "sorted_wrt (<) v" and "d \<notin> set v"
  shows "sorted_wrt (<) (sorted_insert v d)"
    and "set (sorted_insert v d) = insert d (set v)"
    and "length (sorted_insert v d) = Suc (length v)"
  using lower_bound_insert [OF assms] by (simp_all add: sorted_insert_def Let_def)

lemma post_add_good:
  assumes "good_postings m" and "post_add m d t = Inr m'"
  shows "good_postings m'"
proof (cases "m t")
  case None
  with assms(2) have m': "m' = m(t \<mapsto> [d])" by (simp add: post_add_def)
  have "int (length [d]) \<le> max_size" by (rule max_size_pos)
  with assms(1) show ?thesis unfolding m' good_postings_def by simp
next
  case (Some v)
  with assms(1) have v: "sorted_wrt (<) v" by (simp add: good_postings_def)
  show ?thesis
  proof (cases "d \<in> set v")
    case True
    with assms Some show ?thesis by (simp add: post_add_def)
  next
    case False
    with assms(2) Some have nfull: "\<not> max_size \<le> int (length v)"
      and m': "m' = m(t \<mapsto> sorted_insert v d)"
      by (auto simp add: post_add_def split: if_splits)
    have "sorted_wrt (<) (sorted_insert v d)" "sorted_insert v d \<noteq> []"
      "int (length (sorted_insert v d)) \<le> max_size"
      using sorted_insert_props [OF v False] nfull by auto
    with assms(1) show ?thesis unfolding m' good_postings_def by simp
  qed
qed

lemma post_add_docs:
  assumes "good_postings m" and "post_add m d t = Inr m'"
  shows "docs m' u = (if u = t then insert d (docs m t) else docs m u)"
proof (cases "m t")
  case None
  with assms show ?thesis by (auto simp add: post_add_def docs_def)
next
  case (Some v)
  with assms(1) have v: "sorted_wrt (<) v" by (simp add: good_postings_def)
  show ?thesis
  proof (cases "d \<in> set v")
    case True
    with assms Some show ?thesis by (auto simp add: post_add_def docs_def)
  next
    case False
    with assms(2) Some have m': "m' = m(t \<mapsto> sorted_insert v d)"
      by (auto simp add: post_add_def split: if_splits)
    show ?thesis unfolding m' using Some sorted_insert_props(2) [OF v False]
      by (simp add: docs_def)
  qed
qed

lemma post_add_dom:
  assumes "post_add m d t = Inr m'"
  shows "m' u = None \<longleftrightarrow> m u = None \<and> u \<noteq> t"
  using assms by (auto simp add: post_add_def split: option.splits if_splits)

lemma post_add_same:
  assumes "d \<in> docs m t"
  shows "post_add m d t = Inr m"
  using assms by (auto simp add: post_add_def docs_def split: option.splits)

lemma post_add_total:
  assumes "good_postings m" and "bounded_postings n m" and "int n < max_size"
  shows "\<exists>m'. post_add m d t = Inr m' \<and> bounded_postings (Suc n) m'"
proof (cases "m t")
  case None
  with assms(2) show ?thesis
    by (auto simp add: post_add_def bounded_postings_def le_Suc_eq)
next
  case (Some v)
  with assms(1) have v: "sorted_wrt (<) v" by (simp add: good_postings_def)
  from Some assms(2) have len: "length v \<le> n" by (simp add: bounded_postings_def)
  have weaken: "bounded_postings (Suc n) m"
    using assms(2) by (auto simp add: bounded_postings_def le_Suc_eq)
  show ?thesis
  proof (cases "d \<in> set v")
    case True
    with Some weaken show ?thesis by (simp add: post_add_def)
  next
    case False
    from len assms(3) have nfull: "\<not> max_size \<le> int (length v)" by simp
    have "length (sorted_insert v d) \<le> Suc n"
      using sorted_insert_props(3) [OF v False] len by simp
    with weaken have "bounded_postings (Suc n) (m(t \<mapsto> sorted_insert v d))"
      by (simp add: bounded_postings_def)
    with Some False nfull show ?thesis by (simp add: post_add_def)
  qed
qed

lemma add_terms_index_of:
  assumes "good_postings m" and "add_terms (index_of m) adds = Inr idx"
  shows "\<exists>m'. idx = index_of m' \<and> good_postings m' \<and>
              (\<forall>u. docs m' u = docs m u \<union> {d. (d, u) \<in> set adds}) \<and>
              (\<forall>u. m' u = None \<longleftrightarrow> m u = None \<and> u \<notin> snd ` set adds)"
  using assms
proof (induction adds arbitrary: m)
  case Nil
  then show ?case by auto
next
  case (Cons a adds)
  obtain d t where a: "a = (d, t)" by (cases a)
  from Cons.prems a obtain m1 where m1: "post_add m d t = Inr m1"
    and run: "add_terms (index_of m1) adds = Inr idx"
    by (cases "post_add m d t") (simp_all add: add_term_index_of)
  note g1 = post_add_good [OF Cons.prems(1) m1]
  from Cons.IH [OF g1 run] obtain m' where m': "idx = index_of m'" "good_postings m'"
    "\<And>u. docs m' u = docs m1 u \<union> {d. (d, u) \<in> set adds}"
    "\<And>u. m' u = None \<longleftrightarrow> m1 u = None \<and> u \<notin> snd ` set adds"
    by blast
  have "docs m' u = docs m u \<union> {d. (d, u) \<in> set (a # adds)}" for u
    unfolding m'(3) post_add_docs [OF Cons.prems(1) m1] a by auto
  moreover have "m' u = None \<longleftrightarrow> m u = None \<and> u \<notin> snd ` set (a # adds)" for u
    unfolding m'(4) post_add_dom [OF m1] a by auto
  ultimately show ?case using m'(1,2) by blast
qed

lemma add_terms_total:
  assumes "good_postings m" and "bounded_postings n m" and "int (n + length adds) \<le> max_size"
  shows "\<exists>idx. add_terms (index_of m) adds = Inr idx"
  using assms
proof (induction adds arbitrary: m n)
  case Nil
  then show ?case by simp
next
  case (Cons a adds)
  obtain d t where a: "a = (d, t)" by (cases a)
  from Cons.prems(3) have "int n < max_size" by simp
  from post_add_total [OF Cons.prems(1,2) this, of d t]
  obtain m1 where m1: "post_add m d t = Inr m1" "bounded_postings (Suc n) m1" by blast
  note g1 = post_add_good [OF Cons.prems(1) m1(1)]
  from Cons.prems(3) have "int (Suc n + length adds) \<le> max_size" by simp
  from Cons.IH [OF g1 m1(2) this] show ?case
    by (simp add: a add_term_index_of [OF Cons.prems(1)] m1(1))
qed

lemma good_empty: "good_postings Map.empty" "bounded_postings 0 Map.empty"
  by (simp_all add: good_postings_def bounded_postings_def)

lemma reachable_index:
  assumes "add_terms IIndex_init adds = Inr idx"
  shows "\<exists>m. idx = index_of m \<and> good_postings m \<and>
             (\<forall>u. docs m u = {d. (d, u) \<in> set adds}) \<and>
             (\<forall>u. m u = None \<longleftrightarrow> u \<notin> snd ` set adds)"
  using add_terms_index_of [OF good_empty(1), of adds idx] assms
  by (simp add: index_of_empty docs_def)

lemma add_terms_returns:
  assumes "int (length adds) \<le> max_size"
  shows "\<exists>idx. add_terms IIndex_init adds = Inr idx"
  using add_terms_total [OF good_empty, of adds] assms by (simp add: index_of_empty)

lemma lookup_index_of:
  assumes "good_postings m"
  shows "lookup (index_of m) t = Inr (m t)"
  by (simp add: lookup_def get_doc_vector_index_of [OF assms])

section \<open>Properties of the index\<close>

lemma main_run_eval:
  "(case add_terms IIndex_init main_adds of
      Inl e \<Rightarrow> False
    | Inr idx \<Rightarrow>
        lookup idx ''cat'' = Inr (Some [0, 1, 2]) \<and>
        lookup idx ''mouse'' = Inr (Some [1]) \<and>
        lookup idx ''dog'' = Inr (Some [0, 2]) \<and>
        lookup idx ''house'' = Inr (Some [1]) \<and>
        lookup idx ''tree'' = Inr (Some [1, 2]) \<and>
        lookup idx ''fish'' = Inr None)"
  by code_simp

lemma main_run:
  "\<exists>idx. add_terms IIndex_init main_adds = Inr idx \<and>
        lookup idx ''cat'' = Inr (Some [0, 1, 2]) \<and>
        lookup idx ''mouse'' = Inr (Some [1]) \<and>
        lookup idx ''dog'' = Inr (Some [0, 2]) \<and>
        lookup idx ''house'' = Inr (Some [1]) \<and>
        lookup idx ''tree'' = Inr (Some [1, 2]) \<and>
        lookup idx ''fish'' = Inr None"
  using main_run_eval by (cases "add_terms IIndex_init main_adds") simp_all

lemma add_terms_append:
  "add_terms idx (xs @ ys) =
     (case add_terms idx xs of Inl e \<Rightarrow> Inl e | Inr idx' \<Rightarrow> add_terms idx' ys)"
  by (induction xs arbitrary: idx) (auto split: sum.splits)

lemma add_term_returns:
  assumes "add_terms IIndex_init adds = Inr idx" and "int (length adds) < max_size"
  shows "\<exists>idx'. add_term idx d t = Inr idx'"
proof -
  from assms(2) have "int (length (adds @ [(d, t)])) \<le> max_size" by simp
  then obtain idx'' where "add_terms IIndex_init (adds @ [(d, t)]) = Inr idx''"
    using add_terms_returns by blast
  with assms(1) show ?thesis
    by (simp add: add_terms_append split: sum.splits)
qed

lemma good_postings_distinct:
  assumes "good_postings m" and "m t = Some v"
  shows "sorted_wrt (<) v" and "distinct v" and "v \<noteq> []"
proof -
  from assms show "sorted_wrt (<) v" "v \<noteq> []" by (simp_all add: good_postings_def)
  then show "distinct v" by (simp add: strict_sorted_iff)
qed

text \<open>
  C1 (deduplication). A run of \<^verbatim>\<open>add_term\<close> calls from the empty index returns (none of at
  most \<open>max_size\<close> calls can outgrow a vector), and after every run that returned,
  \<^verbatim>\<open>get_doc_vector\<close> of a term \<open>t\<close> returns without exception: absence when no doc-id was
  paired with \<open>t\<close>, and otherwise a list without duplicates whose elements are exactly the
  doc-ids paired with \<open>t\<close>.
\<close>

theorem lookup_exact_set:
  "(int (length adds) \<le> max_size \<longrightarrow> (\<exists>idx. add_terms IIndex_init adds = Inr idx)) \<and>
   (\<forall>idx. add_terms IIndex_init adds = Inr idx \<longrightarrow>
      (\<exists>r. lookup idx t = Inr r \<and>
           (case r of
              None \<Rightarrow> {d. (d, t) \<in> set adds} = {}
            | Some v \<Rightarrow> v \<noteq> [] \<and> distinct v \<and> set v = {d. (d, t) \<in> set adds})))"
proof (intro conjI allI impI)
  assume "int (length adds) \<le> max_size"
  then show "\<exists>idx. add_terms IIndex_init adds = Inr idx" by (rule add_terms_returns)
next
  fix idx
  assume "add_terms IIndex_init adds = Inr idx"
  from reachable_index [OF this] obtain m where m: "idx = index_of m" "good_postings m"
    "\<And>u. docs m u = {d. (d, u) \<in> set adds}" by blast
  have l: "lookup idx t = Inr (m t)" unfolding m(1) using m(2) by (rule lookup_index_of)
  show "\<exists>r. lookup idx t = Inr r \<and>
           (case r of
              None \<Rightarrow> {d. (d, t) \<in> set adds} = {}
            | Some v \<Rightarrow> v \<noteq> [] \<and> distinct v \<and> set v = {d. (d, t) \<in> set adds})"
  proof (cases "m t")
    case None
    with m(3) [of t] l show ?thesis by (simp add: docs_def)
  next
    case (Some v)
    with m(3) [of t] l good_postings_distinct [OF m(2) Some] show ?thesis
      by (simp add: docs_def)
  qed
qed


lemma main_adds_short: "int (length main_adds) < max_size"
  by (simp add: main_adds_def max_size_def)

theorem lookup_exact_set_witness:
  "int (length main_adds) \<le> max_size \<and>
   (\<exists>idx r. add_terms IIndex_init main_adds = Inr idx \<and> lookup idx ''cat'' = Inr r \<and>
           (case r of
              None \<Rightarrow> {d. (d, ''cat'') \<in> set main_adds} = {}
            | Some v \<Rightarrow> v \<noteq> [] \<and> distinct v \<and> set v = {d. (d, ''cat'') \<in> set main_adds}))"
proof -
  have h: "int (length main_adds) \<le> max_size" using main_adds_short by simp
  from lookup_exact_set [of main_adds "''cat''"] h show ?thesis by blast
qed

text \<open>
  C2 (sortedness). A run of \<^verbatim>\<open>add_term\<close> calls from the empty index returns (none of at
  most \<open>max_size\<close> calls can fail), and after every run that returned, \<^verbatim>\<open>get_doc_vector\<close> of
  any term returns without exception, and a list it returns is strictly ascending, hence
  free of duplicates.
\<close>

theorem lookup_strictly_ascending:
  "(int (length adds) \<le> max_size \<longrightarrow> (\<exists>idx. add_terms IIndex_init adds = Inr idx)) \<and>
   (\<forall>idx. add_terms IIndex_init adds = Inr idx \<longrightarrow>
      (\<exists>r. lookup idx t = Inr r) \<and>
      (\<forall>v. lookup idx t = Inr (Some v) \<longrightarrow> sorted_wrt (<) v \<and> distinct v))"
proof (intro conjI allI impI)
  assume "int (length adds) \<le> max_size"
  then show "\<exists>idx. add_terms IIndex_init adds = Inr idx" by (rule add_terms_returns)
next
  fix idx
  assume "add_terms IIndex_init adds = Inr idx"
  from reachable_index [OF this] obtain m where m: "idx = index_of m" "good_postings m"
    by blast
  have l: "lookup idx t = Inr (m t)" unfolding m(1) using m(2) by (rule lookup_index_of)
  then show "\<exists>r. lookup idx t = Inr r" by blast
  fix v
  assume "lookup idx t = Inr (Some v)"
  with l have "m t = Some v" by simp
  from good_postings_distinct(1,2) [OF m(2) this]
  show "sorted_wrt (<) v" "distinct v" .
qed

theorem lookup_strictly_ascending_witness:
  "int (length main_adds) \<le> max_size \<and>
   (\<exists>idx. add_terms IIndex_init main_adds = Inr idx \<and>
          lookup idx ''tree'' = Inr (Some [1, 2]) \<and>
          sorted_wrt (<) [1, 2 :: DocId] \<and> distinct [1, 2 :: DocId])"
proof -
  have h: "int (length main_adds) \<le> max_size" using main_adds_short by simp
  from main_run obtain idx where run: "add_terms IIndex_init main_adds = Inr idx"
    and l: "lookup idx ''tree'' = Inr (Some [1, 2])" by blast
  from lookup_strictly_ascending [of main_adds "''tree''"] run l
  have "sorted_wrt (<) [1, 2 :: DocId] \<and> distinct [1, 2 :: DocId]" by blast
  with h run l show ?thesis by blast
qed

lemma post_add_other:
  assumes "post_add m d t = Inr m'" and "u \<noteq> t"
  shows "m' u = m u"
  using assms by (auto simp add: post_add_def split: option.splits if_splits)

lemma posting_set_index_of:
  assumes "good_postings m"
  shows "posting_set (index_of m) u = docs m u"
  by (simp add: posting_set_def lookup_index_of [OF assms] docs_def split: option.splits)

lemma add_term_step:
  assumes "good_postings m" and "add_term (index_of m) d t = Inr idx'"
  shows "\<exists>m'. idx' = index_of m' \<and> post_add m d t = Inr m' \<and> good_postings m'"
proof -
  from assms obtain m' where m': "post_add m d t = Inr m'" "idx' = index_of m'"
    by (cases "post_add m d t") (auto simp add: add_term_index_of)
  with post_add_good [OF assms(1) m'(1)] show ?thesis by blast
qed

text \<open>
  C4 (idempotence). In every index reached by a run of \<^verbatim>\<open>add_term\<close> calls from the empty
  index, \<^verbatim>\<open>add_term(d, t)\<close> returns (when the run had fewer than \<open>max_size\<close> calls, so that no
  vector is full), and whenever it returns an index, a second \<^verbatim>\<open>add_term(d, t)\<close> returns that
  same index: the store after two calls is the store after one.
\<close>

theorem add_term_idempotent:
  assumes "add_terms IIndex_init adds = Inr idx"
  shows "(int (length adds) < max_size \<longrightarrow> (\<exists>idx'. add_term idx d t = Inr idx')) \<and>
         (\<forall>idx'. add_term idx d t = Inr idx' \<longrightarrow> add_term idx' d t = Inr idx')"
proof (intro conjI allI impI)
  assume "int (length adds) < max_size"
  with assms show "\<exists>idx'. add_term idx d t = Inr idx'" by (rule add_term_returns)
next
  fix idx'
  assume step: "add_term idx d t = Inr idx'"
  from reachable_index [OF assms] obtain m where m: "idx = index_of m" "good_postings m"
    by blast
  from add_term_step [OF m(2) step [unfolded m(1)]]
  obtain m' where m': "idx' = index_of m'" "post_add m d t = Inr m'" "good_postings m'"
    by blast
  have "d \<in> docs m' t" using post_add_docs [OF m(2) m'(2), of t] by simp
  then have "post_add m' d t = Inr m'" by (rule post_add_same)
  then show "add_term idx' d t = Inr idx'"
    unfolding m'(1) by (simp add: add_term_index_of [OF m'(3)])
qed

theorem add_term_idempotent_witness:
  "\<exists>idx. add_terms IIndex_init main_adds = Inr idx \<and> int (length main_adds) < max_size \<and>
         (\<exists>idx'. add_term idx 5 ''cat'' = Inr idx' \<and> add_term idx' 5 ''cat'' = Inr idx')"
proof -
  from main_run obtain idx where run: "add_terms IIndex_init main_adds = Inr idx" by blast
  from add_term_idempotent [OF run, of 5 "''cat''"] main_adds_short run
  show ?thesis by blast
qed

text \<open>
  C6 (presence). A run of \<^verbatim>\<open>add_term\<close> calls from the empty index returns (none of at most
  \<open>max_size\<close> calls can fail), and after every run that returned, the store contains a term
  \<open>t\<close> exactly when some call of the run was for \<open>t\<close>; \<^verbatim>\<open>get_doc_vector\<close> of a term never
  added returns the empty optional, and for no term does it return an empty list.
\<close>

theorem store_presence:
  "(int (length adds) \<le> max_size \<longrightarrow> (\<exists>idx. add_terms IIndex_init adds = Inr idx)) \<and>
   (\<forall>idx. add_terms IIndex_init adds = Inr idx \<longrightarrow>
      (KVStore_exists (kvstore idx) t \<longleftrightarrow> (\<exists>d. (d, t) \<in> set adds)) \<and>
      (lookup idx t = Inr None \<longleftrightarrow> \<not> (\<exists>d. (d, t) \<in> set adds)) \<and>
      lookup idx t \<noteq> Inr (Some []))"
proof (intro conjI allI impI)
  assume "int (length adds) \<le> max_size"
  then show "\<exists>idx. add_terms IIndex_init adds = Inr idx" by (rule add_terms_returns)
next
  fix idx
  assume "add_terms IIndex_init adds = Inr idx"
  from reachable_index [OF this] obtain m where m: "idx = index_of m" "good_postings m"
    "\<And>u. m u = None \<longleftrightarrow> u \<notin> snd ` set adds" by blast
  have l: "lookup idx t = Inr (m t)" unfolding m(1) using m(2) by (rule lookup_index_of)
  have mem: "t \<in> snd ` set adds \<longleftrightarrow> (\<exists>d. (d, t) \<in> set adds)" by force
  show "KVStore_exists (kvstore idx) t \<longleftrightarrow> (\<exists>d. (d, t) \<in> set adds)"
    unfolding m(1) exists_index_of using m(3) [of t] mem by simp
  show "lookup idx t = Inr None \<longleftrightarrow> \<not> (\<exists>d. (d, t) \<in> set adds)"
    unfolding l using m(3) [of t] mem by simp
  show "lookup idx t \<noteq> Inr (Some [])"
    unfolding l using m(2) by (auto simp add: good_postings_def)
qed

theorem store_presence_witness:
  "int (length main_adds) \<le> max_size \<and>
   (\<exists>idx. add_terms IIndex_init main_adds = Inr idx \<and>
          KVStore_exists (kvstore idx) ''mouse'' \<and> (\<exists>d. (d, ''mouse'') \<in> set main_adds) \<and>
          \<not> KVStore_exists (kvstore idx) ''fish'' \<and> lookup idx ''fish'' = Inr None)"
proof -
  have h: "int (length main_adds) \<le> max_size" using main_adds_short by simp
  from main_run obtain idx where run: "add_terms IIndex_init main_adds = Inr idx" by blast
  have yes: "\<exists>d. (d, ''mouse'') \<in> set main_adds"
    by (rule exI [of _ 1]) (simp add: main_adds_def)
  have no: "\<not> (\<exists>d. (d, ''fish'') \<in> set main_adds)"
    by (simp add: main_adds_def)
  from store_presence [of main_adds "''mouse''"] run yes
  have a: "KVStore_exists (kvstore idx) ''mouse''" by blast
  from store_presence [of main_adds "''fish''"] run no
  have b: "\<not> KVStore_exists (kvstore idx) ''fish''" "lookup idx ''fish'' = Inr None" by blast+
  from h run a yes b show ?thesis by blast
qed

text \<open>
  C7 (monotonic growth). In every index reached by a run of \<^verbatim>\<open>add_term\<close> calls from the
  empty index, \<^verbatim>\<open>add_term(d, t)\<close> returns (when the run had fewer than \<open>max_size\<close> calls), and
  whenever it returns, the doc-ids of every term afterwards include those before: the
  doc-ids of \<open>t\<close> are the former ones and \<open>d\<close>, and the lookup of every other term is
  unchanged.
\<close>

theorem add_term_monotone:
  assumes "add_terms IIndex_init adds = Inr idx"
  shows "(int (length adds) < max_size \<longrightarrow> (\<exists>idx'. add_term idx d t = Inr idx')) \<and>
         (\<forall>idx'. add_term idx d t = Inr idx' \<longrightarrow>
            (\<forall>u. posting_set idx u \<subseteq> posting_set idx' u) \<and>
            posting_set idx' t = insert d (posting_set idx t) \<and>
            (\<forall>u. u \<noteq> t \<longrightarrow> lookup idx' u = lookup idx u))"
proof (intro conjI allI impI)
  assume "int (length adds) < max_size"
  with assms show "\<exists>idx'. add_term idx d t = Inr idx'" by (rule add_term_returns)
next
  fix idx'
  assume step: "add_term idx d t = Inr idx'"
  from reachable_index [OF assms] obtain m where m: "idx = index_of m" "good_postings m"
    by blast
  from add_term_step [OF m(2) step [unfolded m(1)]]
  obtain m' where m': "idx' = index_of m'" "post_add m d t = Inr m'" "good_postings m'"
    by blast
  have ps: "posting_set idx u = docs m u" "posting_set idx' u = docs m' u" for u
    unfolding m(1) m'(1)
    by (rule posting_set_index_of [OF m(2)], rule posting_set_index_of [OF m'(3)])
  have dd: "docs m' u = (if u = t then insert d (docs m t) else docs m u)" for u
    by (rule post_add_docs [OF m(2) m'(2)])
  show "posting_set idx' t = insert d (posting_set idx t)"
    by (simp add: ps dd)
  show "posting_set idx u \<subseteq> posting_set idx' u" for u
  proof (cases "u = t")
    case True
    then show ?thesis by (simp add: ps dd subset_insertI)
  next
    case False
    then show ?thesis by (simp add: ps dd)
  qed
  show "lookup idx' u = lookup idx u" if "u \<noteq> t" for u
  proof -
    from post_add_other [OF m'(2) that] have "m' u = m u" .
    then show ?thesis
      unfolding m(1) m'(1) by (simp only: lookup_index_of [OF m(2)] lookup_index_of [OF m'(3)])
  qed
qed


theorem add_term_monotone_witness:
  "\<exists>idx. add_terms IIndex_init main_adds = Inr idx \<and> int (length main_adds) < max_size \<and>
         (\<exists>idx'. add_term idx 0 ''tree'' = Inr idx' \<and>
                 posting_set idx ''dog'' \<subseteq> posting_set idx' ''dog'' \<and>
                 posting_set idx' ''tree'' = insert 0 (posting_set idx ''tree'') \<and>
                 lookup idx' ''cat'' = lookup idx ''cat'')"
proof -
  from main_run obtain idx where run: "add_terms IIndex_init main_adds = Inr idx" by blast
  note th = add_term_monotone [OF run, of 0 "''tree''"]
  from th [THEN conjunct1, THEN mp, OF main_adds_short]
  obtain idx' where s: "add_term idx 0 ''tree'' = Inr idx'" ..
  note after = th [THEN conjunct2, THEN spec, THEN mp, OF s]
  have ne: "''cat'' \<noteq> ''tree''" by simp
  have a: "posting_set idx ''dog'' \<subseteq> posting_set idx' ''dog''"
    by (rule after [THEN conjunct1, THEN spec])
  have b: "posting_set idx' ''tree'' = insert 0 (posting_set idx ''tree'')"
    by (rule after [THEN conjunct2, THEN conjunct1])
  have c: "lookup idx' ''cat'' = lookup idx ''cat''"
    by (rule after [THEN conjunct2, THEN conjunct2, THEN spec, THEN mp, OF ne])
  show ?thesis
    by (intro exI conjI) (rule run main_adds_short s a b c)+
qed

text \<open>
  C9 (the scenario of \<^verbatim>\<open>main\<close>). The nine \<^verbatim>\<open>add_term\<close> calls of \<^verbatim>\<open>main\<close>, made on the empty
  index, return an index in which \<^verbatim>\<open>get_doc_vector\<close> gives \<open>[0, 1, 2]\<close> for "cat", \<open>[1]\<close> for
  "mouse", \<open>[0, 2]\<close> for "dog", \<open>[1]\<close> for "house", \<open>[1, 2]\<close> for "tree" and the empty
  optional for "fish".
\<close>

theorem main_scenario:
  "\<exists>idx. add_terms IIndex_init main_adds = Inr idx \<and>
        lookup idx ''cat'' = Inr (Some [0, 1, 2]) \<and>
        lookup idx ''mouse'' = Inr (Some [1]) \<and>
        lookup idx ''dog'' = Inr (Some [0, 2]) \<and>
        lookup idx ''house'' = Inr (Some [1]) \<and>
        lookup idx ''tree'' = Inr (Some [1, 2]) \<and>
        lookup idx ''fish'' = Inr None"
  using main_run_eval by (cases "add_terms IIndex_init main_adds") simp_all

theorem main_scenario_witness:
  "\<exists>idx. add_terms IIndex_init main_adds = Inr idx \<and> lookup idx ''cat'' = Inr (Some [0, 1, 2])"
proof -
  from main_scenario obtain idx where "add_terms IIndex_init main_adds = Inr idx"
    "lookup idx ''cat'' = Inr (Some [0, 1, 2])" by blast
  then show ?thesis by (intro exI conjI)
qed

section \<open>The store\<close>

text \<open>
  C10 (\<^verbatim>\<open>KVStore::get\<close> writes). For a key that \<^verbatim>\<open>exists\<close> denies, \<^verbatim>\<open>get\<close> returns the empty
  blob and leaves a store that maps the key to the empty blob, so that \<^verbatim>\<open>exists\<close> holds
  afterwards, every other key being as before; \<^verbatim>\<open>get_doc_vector\<close> of such a key returns the
  empty optional and the index as it was, since it asks \<^verbatim>\<open>exists\<close> first.
\<close>

theorem get_inserts_missing_key:
  assumes "\<not> KVStore_exists kv k"
  shows "KVStore_get kv k = ([], kv\<lparr>store := (store kv)(k \<mapsto> [])\<rparr>) \<and>
         KVStore_exists (snd (KVStore_get kv k)) k \<and>
         (\<forall>k'. k' \<noteq> k \<longrightarrow> store (snd (KVStore_get kv k)) k' = store kv k') \<and>
         get_doc_vector \<lparr>kvstore = kv\<rparr> k = Inr (None, \<lparr>kvstore = kv\<rparr>)"
  using assms by (simp add: KVStore_exists_def KVStore_get_def get_doc_vector_def)

theorem get_inserts_missing_key_witness:
  "\<not> KVStore_exists \<lparr>store = Map.empty\<rparr> ''fish'' \<and>
   KVStore_get \<lparr>store = Map.empty\<rparr> ''fish''
     = ([], \<lparr>store = Map.empty\<rparr>\<lparr>store := (store \<lparr>store = Map.empty\<rparr>)(''fish'' \<mapsto> [])\<rparr>) \<and>
   KVStore_exists (snd (KVStore_get \<lparr>store = Map.empty\<rparr> ''fish'')) ''fish'' \<and>
   get_doc_vector \<lparr>kvstore = \<lparr>store = Map.empty\<rparr>\<rparr> ''fish''
     = Inr (None, \<lparr>kvstore = \<lparr>store = Map.empty\<rparr>\<rparr>)"
proof -
  have h: "\<not> KVStore_exists \<lparr>store = Map.empty\<rparr> ''fish''"
    by (simp add: KVStore_exists_def)
  note th = get_inserts_missing_key [OF h]
  show ?thesis
    by (intro conjI) (rule h th [THEN conjunct1] th [THEN conjunct2, THEN conjunct1]
        th [THEN conjunct2, THEN conjunct2, THEN conjunct2])+
qed

text \<open>
  C8 (\<^verbatim>\<open>KVStore::get\<close> of a missing key). The claim as stated fails: \<^verbatim>\<open>get\<close> raises nothing.
  On the empty store, where \<^verbatim>\<open>exists\<close> denies the key, it returns the empty blob and a store
  that now holds the key.
\<close>

theorem get_missing_key_returns:
  "\<not> KVStore_exists \<lparr>store = Map.empty\<rparr> ''fish'' \<and>
   KVStore_get \<lparr>store = Map.empty\<rparr> ''fish'' = ([], \<lparr>store = [''fish'' \<mapsto> []]\<rparr>)"
  by (simp add: KVStore_exists_def KVStore_get_def)

text \<open>
  C8 as amended. When \<^verbatim>\<open>exists(k)\<close> holds, \<^verbatim>\<open>get(k)\<close> returns the blob stored under \<open>k\<close> and
  leaves the store as it is; in particular it returns the blob last put. It raises
  nothing: when \<^verbatim>\<open>exists(k)\<close> is false it returns normally, with the empty blob.
\<close>

theorem get_returns_put_blob:
  "(KVStore_exists kv k \<longrightarrow> (\<exists>v. store kv k = Some v \<and> KVStore_get kv k = (v, kv))) \<and>
   KVStore_get (KVStore_insert kv k v) k = (v, KVStore_insert kv k v) \<and>
   (\<not> KVStore_exists kv k \<longrightarrow> fst (KVStore_get kv k) = [])"
  by (auto simp add: KVStore_exists_def KVStore_get_def KVStore_insert_def)

theorem get_returns_put_blob_witness:
  "KVStore_exists \<lparr>store = [''cat'' \<mapsto> [7]]\<rparr> ''cat'' \<and>
   (\<exists>v. store \<lparr>store = [''cat'' \<mapsto> [7]]\<rparr> ''cat'' = Some v \<and>
        KVStore_get \<lparr>store = [''cat'' \<mapsto> [7]]\<rparr> ''cat'' = (v, \<lparr>store = [''cat'' \<mapsto> [7]]\<rparr>)) \<and>
   \<not> KVStore_exists \<lparr>store = Map.empty\<rparr> ''fish'' \<and>
   fst (KVStore_get \<lparr>store = Map.empty\<rparr> ''fish'') = []"
proof -
  have h1: "KVStore_exists \<lparr>store = [''cat'' \<mapsto> [7]]\<rparr> ''cat''"
    by (simp add: KVStore_exists_def)
  have h2: "\<not> KVStore_exists \<lparr>store = Map.empty\<rparr> ''fish''"
    by (simp add: KVStore_exists_def)
  note a = get_returns_put_blob [of "\<lparr>store = [''cat'' \<mapsto> [7]]\<rparr>" "''cat''", THEN conjunct1, THEN mp, OF h1]
  note b = get_returns_put_blob [of "\<lparr>store = Map.empty\<rparr>" "''fish''",
      THEN conjunct2, THEN conjunct2, THEN mp, OF h2]
  show ?thesis
    by (intro conjI) (rule h1 a h2 b)+
qed

section \<open>Reading buffers that are not a wire format\<close>

lemma word_bytes_0: "word_bytes n 0 = replicate n 0"
  by (induction n) simp_all

lemma object_bytes_0: "object_bytes 0 = replicate 8 0"
  by (simp add: object_bytes_def word_bytes_0)

lemma from_le_zeros: "from_le (replicate k 0) = 0"
  by (induction k) simp_all

lemma from_le_append_zeros: "from_le (bs @ replicate k 0) = from_le bs"
  by (induction bs) (simp_all add: from_le_zeros)

lemma take_bit_from_le_step:
  "take_bit (8 + m) (ucast (b :: byte) OR push_bit 8 (x :: 64 word))
     = ucast b OR push_bit 8 (take_bit m x)"
proof (rule bit_word_eqI)
  fix n assume n: "n < LENGTH(64)"
  show "bit (take_bit (8 + m) (ucast b OR push_bit 8 x)) n
      = bit (ucast b OR push_bit 8 (take_bit m x)) n"
  proof (cases "n < 8")
    case True
    then show ?thesis by (simp add: bit_simps)
  next
    case False
    then have "n - 8 < m \<longleftrightarrow> n < 8 + m" by linarith
    moreover have "\<not> bit b n" using False by (auto dest: bit_imp_le_length)
    ultimately show ?thesis using False n by (simp add: bit_simps)
  qed
qed

lemma take_bit_from_le: "take_bit (8 * length bs) (from_le bs) = from_le bs"
proof (induction bs)
  case Nil
  show ?case by simp
next
  case (Cons b bs)
  have "8 * length (b # bs) = 8 + 8 * length bs" by simp
  with Cons show ?case by (simp only: from_le.simps take_bit_from_le_step)
qed

lemma uint_from_le_less: "uint (from_le bs) < 2 ^ (8 * length bs)"
proof -
  have "uint (from_le bs) = uint (take_bit (8 * length bs) (from_le bs))"
    by (simp only: take_bit_from_le)
  also have "\<dots> = take_bit (8 * length bs) (uint (from_le bs))"
    by (rule unsigned_take_bit_eq)
  also have "\<dots> < 2 ^ (8 * length bs)"
    by (rule take_bit_int_less_exp)
  finally show ?thesis .
qed

lemma short_header_len:
  assumes "length buf < 8"
  shows "uint (from_le (overwrite buf (object_bytes 0))) \<le> max_size"
proof -
  have "overwrite buf (object_bytes 0) = buf @ replicate (8 - length buf) 0"
    by (simp add: overwrite_def object_bytes_0)
  then have e: "from_le (overwrite buf (object_bytes 0)) = from_le buf"
    by (simp only: from_le_append_zeros)
  from assms have "8 * length buf \<le> 56" by simp
  then have "(2 :: int) ^ (8 * length buf) \<le> 2 ^ 56"
    by (rule power_increasing) simp
  with uint_from_le_less [of buf] have "uint (from_le buf) < 2 ^ 56" by linarith
  then show ?thesis unfolding e by (simp add: max_size_def)
qed

lemma length_from_image: "length (from_image bs) = length bs div 8"
  by (induction bs rule: from_image.induct) simp_all

lemma header_short_read:
  assumes "length buf < 8"
  shows "is_read (sstream_of buf) 8
           = (buf, \<lparr>content = buf, gpos = length buf, ppos = 0, good = False\<rparr>)"
    and "from_le (overwrite buf (object_bytes 0)) = from_le buf"
proof -
  show "is_read (sstream_of buf) 8
          = (buf, \<lparr>content = buf, gpos = length buf, ppos = 0, good = False\<rparr>)"
    using assms by (simp add: is_read_def sstream_of_def Let_def)
  have "overwrite buf (object_bytes 0) = buf @ replicate (8 - length buf) 0"
    by (simp add: overwrite_def object_bytes_0)
  then show "from_le (overwrite buf (object_bytes 0)) = from_le buf"
    by (simp only: from_le_append_zeros)
qed

lemma failed_read:
  "is_read \<lparr>content = buf, gpos = g, ppos = p, good = False\<rparr> n
     = ([], \<lparr>content = buf, gpos = g, ppos = p, good = False\<rparr>)"
  by (simp add: is_read_def)

lemma short_header_fits: "length buf < 8 \<Longrightarrow> \<not> max_size < uint (from_le buf)"
  using short_header_len [of buf] by (simp add: header_short_read(2))

lemma read_vector_mem_short_header:
  assumes "length buf < 8" and "uint (from_le buf) \<le> mem"
  shows "\<exists>is' v. read_vector_mem mem (sstream_of buf) data = Inr (is', v) \<and>
                  \<not> good is' \<and> length v = unat (from_le buf)"
  using short_header_fits [OF assms(1)] assms(2)
  by (simp add: read_vector_mem_def header_short_read [OF assms(1)] failed_read
      resize_mem_def Let_def)

lemma read_vector_mem_short_header_alloc:
  assumes "length buf < 8" and "int (length data) < uint (from_le buf)"
    and "mem < uint (from_le buf)"
  shows "read_vector_mem mem (sstream_of buf) data = Inl Bad_alloc"
  using short_header_fits [OF assms(1)] assms(2,3)
  by (simp add: read_vector_mem_def header_short_read [OF assms(1)] resize_mem_def Let_def)

lemma header_read:
  "is_read (sstream_of (object_bytes n @ rest)) 8
     = (object_bytes n,
        \<lparr>content = object_bytes n @ rest, gpos = 8, ppos = 0, good = True\<rparr>)"
  "from_le (overwrite (object_bytes n) (object_bytes 0)) = n"
  by (simp_all add: is_read_def sstream_of_def Let_def overwrite_full)

lemma read_vector_mem_short_elements:
  assumes "uint n \<le> max_size" and "uint n \<le> mem" and "length rest < 8 * unat n"
  shows "\<exists>is' v. read_vector_mem mem (sstream_of (object_bytes n @ rest)) data = Inr (is', v) \<and>
                  \<not> good is' \<and> length v = unat n"
proof -
  define c where "c = 8 * unat n"
  have "int (unat n) \<le> max_size" using assms(1) by simp
  from max_size_bounds(4) [OF this] have cnt: "sint (8 * n) = int c" by (simp add: c_def)
  have short: "length rest < c" using assms(3) by (simp add: c_def)
  have r2: "is_read \<lparr>content = object_bytes n @ rest, gpos = 8, ppos = 0, good = True\<rparr>
                (sint (8 * n))
              = (rest, \<lparr>content = object_bytes n @ rest, gpos = 8 + length rest, ppos = 0,
                        good = False\<rparr>)"
    unfolding cnt using short by (simp add: is_read_def Let_def)
  define data1 where "data1 = take (unat n) data @ replicate (unat n - length data) 0"
  have l1: "length data1 = unat n" by (simp add: data1_def)
  have rs: "resize_mem mem n data = Inr data1"
    using assms(1,2) by (simp add: resize_mem_def data1_def)
  have "length (overwrite rest (vec_image data1)) = 8 * unat n"
    using assms(3) l1 by (simp add: overwrite_def)
  then have "length (from_image (overwrite rest (vec_image data1))) = unat n"
    by (simp add: length_from_image)
  then show ?thesis
    by (simp add: read_vector_mem_def header_read rs r2 Let_def)
qed

lemma read_vector_mem_alloc:
  assumes "uint n \<le> max_size" and "int (length data) < uint n" and "mem < uint n"
  shows "read_vector_mem mem (sstream_of (object_bytes n @ rest)) data = Inl Bad_alloc"
  using assms by (simp add: read_vector_mem_def header_read resize_mem_def Let_def)

lemma read_vector_mem_length:
  assumes "max_size < uint n"
  shows "read_vector_mem mem (sstream_of (object_bytes n @ rest)) data = Inl Length_error"
  using assms by (simp add: read_vector_mem_def header_read resize_mem_def Let_def)

lemma read_vector_mem_error:
  "read_vector_mem mem is data = Inl e \<Longrightarrow> e = Length_error \<or> e = Bad_alloc"
  by (auto simp add: read_vector_mem_def resize_mem_def Let_def
      split: prod.splits if_splits sum.splits)

text \<open>
  C5 (failures of the codec's read). The claim as stated fails: \<^verbatim>\<open>read_vector\<close> has no
  \<^verbatim>\<open>Truncated\<close> and no \<^verbatim>\<open>LengthOverflow\<close> failure. On a buffer of the single byte 5 it
  returns normally, with a vector of five zeros and a stream that is no longer good; on a
  header announcing 3 elements followed by 9 bytes only, it returns normally with the
  vector \<open>[7, 9, 0]\<close>. Vectors of five and of three elements are granted by every host.
\<close>

theorem read_vector_no_codec_failure:
  "read_vector (sstream_of [5]) []
     = Inr (\<lparr>content = [5], gpos = 1, ppos = 0, good = False\<rparr>, [0, 0, 0, 0, 0]) \<and>
   read_vector (sstream_of [3, 0, 0, 0, 0, 0, 0, 0, 7, 0, 0, 0, 0, 0, 0, 0, 9]) []
     = Inr (\<lparr>content = [3, 0, 0, 0, 0, 0, 0, 0, 7, 0, 0, 0, 0, 0, 0, 0, 9],
             gpos = 17, ppos = 0, good = False\<rparr>, [7, 9, 0])"
  by code_simp

text \<open>
  C5 as amended, for a host that grants the vector at most \<open>mem\<close> elements at that call.
  On a buffer that starts with the bytes \<^verbatim>\<open>write_vector\<close> produced for a sequence \<open>L\<close> (of
  at most \<open>max_size\<close> and at most \<open>mem\<close> elements), \<^verbatim>\<open>read_vector\<close> consumes exactly
  \<open>8 + 8 * length L\<close> bytes, leaves the stream good and reconstructs \<open>L\<close>. It has no
  \<^verbatim>\<open>Truncated\<close> and no \<^verbatim>\<open>LengthOverflow\<close> failure: it resizes the vector to the count it
  read before it looks at the rest of the buffer. With fewer than 8 header bytes the count
  is the value of the bytes that are there; with that count, or with the count \<open>n\<close> of a
  whole header that has fewer than \<open>n\<close> elements behind it, \<^verbatim>\<open>read_vector\<close> returns normally
  when the host grants the count, the stream no longer good and the vector of that many
  elements, and throws \<^verbatim>\<open>std::bad_alloc\<close> when the vector has to grow to a count that the
  host does not grant. A count above \<open>max_size\<close> throws \<^verbatim>\<open>std::length_error\<close>, whatever
  follows the header. No other exception escapes.
\<close>

theorem read_vector_behaviour:
  "(int (length L) \<le> max_size \<and> int (length L) \<le> mem \<longrightarrow>
      read_vector_mem mem (sstream_of (str (write_vector (sstream_of []) L) @ rest)) data
        = Inr (\<lparr>content = str (write_vector (sstream_of []) L) @ rest,
                gpos = 8 + 8 * length L, ppos = 0, good = True\<rparr>, L)) \<and>
   (length buf < 8 \<and> uint (from_le buf) \<le> mem \<longrightarrow>
      (\<exists>is' v. read_vector_mem mem (sstream_of buf) data = Inr (is', v) \<and>
               \<not> good is' \<and> length v = unat (from_le buf))) \<and>
   (length buf < 8 \<and> int (length data) < uint (from_le buf) \<and> mem < uint (from_le buf) \<longrightarrow>
      read_vector_mem mem (sstream_of buf) data = Inl Bad_alloc) \<and>
   (uint n \<le> max_size \<and> uint n \<le> mem \<and> length rest' < 8 * unat n \<longrightarrow>
      (\<exists>is' v. read_vector_mem mem (sstream_of (object_bytes n @ rest')) data = Inr (is', v) \<and>
               \<not> good is' \<and> length v = unat n)) \<and>
   (uint n \<le> max_size \<and> int (length data) < uint n \<and> mem < uint n \<longrightarrow>
      read_vector_mem mem (sstream_of (object_bytes n @ rest')) data = Inl Bad_alloc) \<and>
   (max_size < uint n \<longrightarrow>
      read_vector_mem mem (sstream_of (object_bytes n @ rest')) data = Inl Length_error) \<and>
   (\<forall>is e. read_vector_mem mem is data = Inl e \<longrightarrow> e = Length_error \<or> e = Bad_alloc)"
proof (intro conjI impI allI)
  assume L: "int (length L) \<le> max_size \<and> int (length L) \<le> mem"
  then have "str (write_vector (sstream_of []) L) = blob_of L"
    by (simp add: write_vector_fresh str_def)
  with read_vector_mem_blob [of L mem rest data] L
  show "read_vector_mem mem (sstream_of (str (write_vector (sstream_of []) L) @ rest)) data
        = Inr (\<lparr>content = str (write_vector (sstream_of []) L) @ rest,
                gpos = 8 + 8 * length L, ppos = 0, good = True\<rparr>, L)"
    by simp
next
  assume "length buf < 8 \<and> uint (from_le buf) \<le> mem"
  then show "\<exists>is' v. read_vector_mem mem (sstream_of buf) data = Inr (is', v) \<and>
               \<not> good is' \<and> length v = unat (from_le buf)"
    using read_vector_mem_short_header [of buf mem data] by blast
next
  assume "length buf < 8 \<and> int (length data) < uint (from_le buf) \<and> mem < uint (from_le buf)"
  then show "read_vector_mem mem (sstream_of buf) data = Inl Bad_alloc"
    using read_vector_mem_short_header_alloc [of buf data mem] by blast
next
  assume "uint n \<le> max_size \<and> uint n \<le> mem \<and> length rest' < 8 * unat n"
  then show "\<exists>is' v. read_vector_mem mem (sstream_of (object_bytes n @ rest')) data
                 = Inr (is', v) \<and> \<not> good is' \<and> length v = unat n"
    using read_vector_mem_short_elements [of n mem rest' data] by blast
next
  assume "uint n \<le> max_size \<and> int (length data) < uint n \<and> mem < uint n"
  then show "read_vector_mem mem (sstream_of (object_bytes n @ rest')) data = Inl Bad_alloc"
    using read_vector_mem_alloc [of n data mem rest'] by blast
next
  assume "max_size < uint n"
  then show "read_vector_mem mem (sstream_of (object_bytes n @ rest')) data = Inl Length_error"
    by (rule read_vector_mem_length)
next
  fix "is" e
  assume "read_vector_mem mem is data = Inl e"
  then show "e = Length_error \<or> e = Bad_alloc" by (rule read_vector_mem_error)
qed

text \<open>
  The instances used below, on a host that grants a vector \<open>2 ^ 32\<close> elements: the count
  5 of the one-byte buffer and the count 3 are granted; the seven header bytes
  \<open>[0, 0, 0, 0, 0, 0, 1]\<close> make the count \<open>2 ^ 48\<close>, which is not.
\<close>

lemma granted_counts:
  "uint (from_le [5]) \<le> 4294967296"
  "uint (3 :: size_t) \<le> max_size"
  "uint (3 :: size_t) \<le> 4294967296"
  "int (length ([] :: DocIdVec)) < uint (from_le [0, 0, 0, 0, 0, 0, 1])"
  "4294967296 < uint (from_le [0, 0, 0, 0, 0, 0, 1])"
  by code_simp+

lemma sizes_of_instances:
  "int (length [1, 42 :: DocId]) \<le> max_size"
  "int (length [1, 42 :: DocId]) \<le> 4294967296"
  "length [5 :: byte] < 8"
  "length [0, 0, 0, 0, 0, 0, 1 :: byte] < 8"
  "length [7, 0, 0, 0, 0, 0, 0, 0, 9 :: byte] < 8 * unat (3 :: size_t)"
  by (simp_all add: max_size_def)

theorem read_vector_behaviour_witness:
  "int (length [1, 42 :: DocId]) \<le> max_size \<and>
   int (length [1, 42 :: DocId]) \<le> 4294967296 \<and>
   read_vector_mem 4294967296
       (sstream_of (str (write_vector (sstream_of []) [1, 42]) @ [9])) []
     = Inr (\<lparr>content = str (write_vector (sstream_of []) [1, 42]) @ [9],
             gpos = 8 + 8 * length [1, 42 :: DocId], ppos = 0, good = True\<rparr>, [1, 42]) \<and>
   length [5 :: byte] < 8 \<and>
   uint (from_le [5]) \<le> 4294967296 \<and>
   (\<exists>is' v. read_vector_mem 4294967296 (sstream_of [5]) [] = Inr (is', v) \<and>
            \<not> good is' \<and> length v = unat (from_le [5])) \<and>
   length [0, 0, 0, 0, 0, 0, 1 :: byte] < 8 \<and>
   int (length ([] :: DocIdVec)) < uint (from_le [0, 0, 0, 0, 0, 0, 1]) \<and>
   4294967296 < uint (from_le [0, 0, 0, 0, 0, 0, 1]) \<and>
   read_vector_mem 4294967296 (sstream_of [0, 0, 0, 0, 0, 0, 1]) [] = Inl Bad_alloc \<and>
   uint (3 :: size_t) \<le> max_size \<and>
   uint (3 :: size_t) \<le> 4294967296 \<and>
   length [7, 0, 0, 0, 0, 0, 0, 0, 9 :: byte] < 8 * unat (3 :: size_t) \<and>
   (\<exists>is' v. read_vector_mem 4294967296
               (sstream_of (object_bytes 3 @ [7, 0, 0, 0, 0, 0, 0, 0, 9])) []
               = Inr (is', v) \<and> \<not> good is' \<and> length v = unat (3 :: size_t))"
proof -
  note s = sizes_of_instances and g = granted_counts
  note a = read_vector_behaviour [where L = "[1, 42]" and mem = 4294967296 and rest = "[9]"
      and data = "[]", THEN conjunct1, THEN mp, OF conjI, OF s(1) s(2)]
  note b = read_vector_behaviour [where buf = "[5]" and mem = 4294967296 and data = "[]",
      THEN conjunct2, THEN conjunct1, THEN mp, OF conjI, OF s(3) g(1)]
  note c = read_vector_behaviour [where buf = "[0, 0, 0, 0, 0, 0, 1]" and mem = 4294967296
      and data = "[]", THEN conjunct2, THEN conjunct2, THEN conjunct1, THEN mp,
      OF conjI, OF s(4) conjI, OF g(4) g(5)]
  note d = read_vector_behaviour [where n = 3 and mem = 4294967296 and data = "[]"
      and rest' = "[7, 0, 0, 0, 0, 0, 0, 0, 9]",
      THEN conjunct2, THEN conjunct2, THEN conjunct2, THEN conjunct1, THEN mp,
      OF conjI, OF g(2) conjI, OF g(3) s(5)]
  show ?thesis
    by (intro conjI) (rule s g a b c d)+
qed

end
